theory Spec2Isabelle
  imports Complex_Main "HOL-Library.Multiset"
begin

section \<open>The batching engine of \<^verbatim>\<open>torchtext/data/iterator.py\<close>\<close>

text \<open>
  Examples are values of an arbitrary type \<open>'a\<close>; the code only moves references to
  them around. Python integers are \<^typ>\<open>int\<close>. An exception is a value of
  \<open>error\<close>.
\<close>

datatype error =
  NotImplementedError | KeyError | TypeError | IndexError | ZeroDivisionError | ValueError |
  OverflowError | RuntimeError


subsection \<open>\<^verbatim>\<open>batch\<close>\<close>

text \<open>
  \<^verbatim>\<open>batch_size_fn(new, count, sofar)\<close>: the new example, the number of examples in
  the minibatch including it, and the running total; it returns the new running total.
\<close>

type_synonym 'a size_fn = "'a \<Rightarrow> int \<Rightarrow> int \<Rightarrow> int"

text \<open>The default installed by \<^verbatim>\<open>batch\<close> when \<^verbatim>\<open>batch_size_fn is None\<close>.\<close>

definition count_fn :: "'a size_fn" where
  "count_fn new cnt sofar = cnt"

text \<open>
  The \<^verbatim>\<open>for ex in data\<close> loop of \<^verbatim>\<open>batch\<close>, started with a pending
  \<open>minibatch\<close> and its \<open>size_so_far\<close>. The result lists the minibatches in the order the
  generator yields them; the equation for \<open>[]\<close> is the trailing
  \<^verbatim>\<open>if minibatch: yield minibatch\<close>. \<^verbatim>\<open>minibatch[:-1]\<close> is \<open>butlast\<close>,
  \<^verbatim>\<open>minibatch[-1:]\<close> keeps the last element.
\<close>

fun batch_loop :: "'a size_fn \<Rightarrow> int \<Rightarrow> 'a list \<Rightarrow> 'a list \<Rightarrow> int \<Rightarrow> 'a list list" where
  "batch_loop batch_size_fn batch_size [] minibatch size_so_far =
     (if minibatch \<noteq> [] then [minibatch] else [])"
| "batch_loop batch_size_fn batch_size (ex # data) minibatch size_so_far =
     (let minibatch1 = minibatch @ [ex];
          size1 = batch_size_fn ex (int (length minibatch1)) size_so_far
      in if size1 = batch_size then
           minibatch1 # batch_loop batch_size_fn batch_size data [] 0
         else if size1 > batch_size then
           butlast minibatch1 #
             batch_loop batch_size_fn batch_size data
               (drop (length minibatch1 - 1) minibatch1) (batch_size_fn ex 1 0)
         else batch_loop batch_size_fn batch_size data minibatch1 size1)"

text \<open>
  The same loop without the trailing yield: the minibatches it yields, and the values
  of \<^verbatim>\<open>minibatch\<close> and \<^verbatim>\<open>size_so_far\<close> when the source is exhausted.
\<close>

fun batch_for ::
  "'a size_fn \<Rightarrow> int \<Rightarrow> 'a list \<Rightarrow> 'a list \<Rightarrow> int \<Rightarrow> 'a list list \<times> 'a list \<times> int" where
  "batch_for batch_size_fn batch_size [] minibatch size_so_far = ([], minibatch, size_so_far)"
| "batch_for batch_size_fn batch_size (ex # data) minibatch size_so_far =
     (let minibatch1 = minibatch @ [ex];
          size1 = batch_size_fn ex (int (length minibatch1)) size_so_far
      in if size1 = batch_size then
           (case batch_for batch_size_fn batch_size data [] 0 of
              (out, st) \<Rightarrow> (minibatch1 # out, st))
         else if size1 > batch_size then
           (case batch_for batch_size_fn batch_size data
                   (drop (length minibatch1 - 1) minibatch1) (batch_size_fn ex 1 0) of
              (out, st) \<Rightarrow> (butlast minibatch1 # out, st))
         else batch_for batch_size_fn batch_size data minibatch1 size1)"

definition batch :: "'a list \<Rightarrow> int \<Rightarrow> 'a size_fn option \<Rightarrow> 'a list list" where
  "batch data batch_size batch_size_fn =
     batch_loop (case batch_size_fn of None \<Rightarrow> count_fn | Some f \<Rightarrow> f) batch_size data [] 0"

subsection \<open>The shuffler\<close>

text \<open>
  \<^verbatim>\<open>RandomShuffler\<close> is defined in \<^verbatim>\<open>utils.py\<close>, outside the modelled file, so its
  call is a parameter of the model: \<open>sample rs n\<close> is what calling the shuffler on a
  sequence of length \<open>n\<close> does when its internal state is \<open>rs\<close>; it raises, or it
  returns the positions of the input in their new order together with the state it
  leaves behind. The state is optional because \<^verbatim>\<open>init_epoch\<close> can install the
  \<^verbatim>\<open>None\<close> that \<^verbatim>\<open>__init__\<close> puts in \<^verbatim>\<open>_random_state_this_epoch\<close>.
\<close>

type_synonym 'rs sampler = "'rs option \<Rightarrow> nat \<Rightarrow> error + (nat list \<times> 'rs option)"

text \<open>
  \<open>random_shuffler(xs)\<close> for a list \<open>xs\<close>: the elements at the sampled positions. A
  position outside the list is an \<^verbatim>\<open>IndexError\<close>, as in
  \<^verbatim>\<open>[self.dataset[i] for i in self.random_shuffler(range(len(self.dataset)))]\<close>.
\<close>

definition call_shuffler ::
  "'rs sampler \<Rightarrow> 'rs option \<Rightarrow> 'a list \<Rightarrow> error + ('a list \<times> 'rs option)" where
  "call_shuffler sample rs xs =
     (case sample rs (length xs) of
        Inl e \<Rightarrow> Inl e
      | Inr (order, rs') \<Rightarrow>
          if list_all (\<lambda>i. i < length xs) order then Inr (map (\<lambda>i. xs ! i) order, rs')
          else Inl IndexError)"

text \<open>A sampler that, whenever it returns, returns a permutation of the positions.\<close>

definition permuting :: "'rs sampler \<Rightarrow> bool" where
  "permuting sample =
     (\<forall>rs n order rs'. sample rs n = Inr (order, rs') \<longrightarrow> mset order = mset [0..<n])"

subsection \<open>\<^verbatim>\<open>pool\<close>\<close>

text \<open>
  The loop \<^verbatim>\<open>for p in batch(data, batch_size * lookahead, batch_size_fn)\<close> over the
  windows \<open>ps\<close>. \<open>random_shuffler\<close> is \<open>None\<close> when the caller supplied none, and
  \<open>Some rs\<close> for a \<^verbatim>\<open>RandomShuffler\<close> whose state is \<open>rs\<close>. The result is the batches
  yielded, the exception that ended the generator if one did, and the shuffler
  afterwards.

  With no shuffler supplied the fallback is \<^verbatim>\<open>random.shuffle\<close>, which shuffles its
  argument in place and returns \<^verbatim>\<open>None\<close>; \<^verbatim>\<open>for b in None\<close> raises
  \<^verbatim>\<open>TypeError\<close>.
\<close>

fun pool_loop ::
  "'rs sampler \<Rightarrow> 'a list list \<Rightarrow> int \<Rightarrow> ('a \<Rightarrow> 'k::linorder) \<Rightarrow> 'a size_fn option \<Rightarrow>
   'rs option option \<Rightarrow> bool \<Rightarrow> bool \<Rightarrow> 'a list list \<times> error option \<times> 'rs option option" where
  "pool_loop sample [] batch_size key batch_size_fn random_shuffler shuffle sort_within_batch =
     ([], None, random_shuffler)"
| "pool_loop sample (p # ps) batch_size key batch_size_fn random_shuffler shuffle sort_within_batch =
     (let p1 = (if sort_within_batch then sort_key key p else p);
          p_batch = batch p1 batch_size batch_size_fn
      in if shuffle then
           (case random_shuffler of
              None \<Rightarrow> ([], Some TypeError, None)
            | Some rs \<Rightarrow>
                (case call_shuffler sample rs p_batch of
                   Inl e \<Rightarrow> ([], Some e, Some rs)
                 | Inr (bs, rs') \<Rightarrow>
                     (case pool_loop sample ps batch_size key batch_size_fn (Some rs')
                             shuffle sort_within_batch of
                        (out, r) \<Rightarrow> (bs @ out, r))))
         else
           (case pool_loop sample ps batch_size key batch_size_fn random_shuffler
                   shuffle sort_within_batch of
              (out, r) \<Rightarrow> (p_batch @ out, r)))"

text \<open>
  \<^verbatim>\<open>pool\<close>. Its default \<^verbatim>\<open>batch_size_fn\<close>, \<^verbatim>\<open>lambda new, count, sofar: count\<close>, is
  the function \<^verbatim>\<open>batch\<close> installs for \<^verbatim>\<open>None\<close>, so \<open>None\<close> stands for both.
\<close>

definition pool ::
  "'rs sampler \<Rightarrow> 'a list \<Rightarrow> int \<Rightarrow> ('a \<Rightarrow> 'k::linorder) \<Rightarrow> 'a size_fn option \<Rightarrow>
   'rs option option \<Rightarrow> bool \<Rightarrow> bool \<Rightarrow> int \<Rightarrow> 'a list list \<times> error option \<times> 'rs option option" where
  "pool sample data batch_size key batch_size_fn random_shuffler shuffle sort_within_batch lookahead =
     pool_loop sample (batch data (batch_size * lookahead) batch_size_fn) batch_size key
       batch_size_fn random_shuffler shuffle sort_within_batch"

subsection \<open>The BPTT chunker\<close>

text \<open>
  Python's \<^verbatim>\<open>xs[i:j]\<close>: a negative bound counts from the end, and both bounds are
  clamped to the sequence.
\<close>

definition py_slice :: "'a list \<Rightarrow> int \<Rightarrow> int \<Rightarrow> 'a list" where
  "py_slice xs i j =
     (let n = int (length xs);
          lo = (if i < 0 then max 0 (i + n) else min i n);
          hi = (if j < 0 then max 0 (j + n) else min j n)
      in take (nat (hi - lo)) (drop (nat lo) xs))"



text \<open>\<^verbatim>\<open>.t()\<close> of a window of rows with \<open>batch_size\<close> columns.\<close>

definition t_contiguous :: "nat \<Rightarrow> 'n list list \<Rightarrow> 'n list list" where
  "t_contiguous batch_size rows = map (\<lambda>b. map (\<lambda>row. row ! b) rows) [0..<batch_size]"

text \<open>
  The body of the loop \<^verbatim>\<open>for i in range(0, n * self.cur_bptt_len, self.cur_bptt_len)\<close>
  shared by \<^verbatim>\<open>BPTTIterator.__iter__\<close> and \<^verbatim>\<open>LazyBPTTIterator.consume_data\<close>: the
  pair \<open>(batch_text, batch_target)\<close> yielded at offset \<open>i\<close>.
\<close>

definition bptt_window ::
  "nat \<Rightarrow> bool \<Rightarrow> nat \<Rightarrow> 'n list list \<Rightarrow> nat \<Rightarrow> 'n list list \<times> 'n list list" where
  "bptt_window batch_size batch_first cur_bptt_len data i =
     (let seq_len = min (int cur_bptt_len) (int (length data) - int i - 1);
          batch_text = py_slice data (int i) (int i + seq_len);
          batch_target = py_slice data (int i + 1) (int i + 1 + seq_len)
      in if batch_first then
           (t_contiguous batch_size batch_text, t_contiguous batch_size batch_target)
         else (batch_text, batch_target))"

text \<open>
  \<^verbatim>\<open>consume_data(data, text_len)\<close>: the pairs in the order they are yielded. A zero step
  makes \<^verbatim>\<open>range\<close> raise \<^verbatim>\<open>ValueError\<close>; a count below one gives an empty range.
\<close>

definition consume_data ::
  "nat \<Rightarrow> bool \<Rightarrow> nat \<Rightarrow> 'n list list \<Rightarrow> int \<Rightarrow> error + ('n list list \<times> 'n list list) list" where
  "consume_data batch_size batch_first cur_bptt_len data text_len =
     (if cur_bptt_len = 0 then Inl ValueError
      else Inr (map (\<lambda>k. bptt_window batch_size batch_first cur_bptt_len data (k * cur_bptt_len))
                  [0..<nat text_len]))"


subsection \<open>The streaming BPTT iterator\<close>

text \<open>
  \<^verbatim>\<open>get_contiguous_buffer\<close>. An example is its token list. The first loop moves tokens
  from the front of \<^verbatim>\<open>prev_text_buffer\<close> while there is room.
\<close>

fun drain_prev :: "int \<Rightarrow> 't list \<Rightarrow> 't list \<Rightarrow> 't list \<times> 't list" where
  "drain_prev cap text_buffer [] = (text_buffer, [])"
| "drain_prev cap text_buffer (w # prev_text_buffer) =
     (if int (length text_buffer) < cap then drain_prev cap (text_buffer @ [w]) prev_text_buffer
      else (text_buffer, w # prev_text_buffer))"

text \<open>The inner loop \<^verbatim>\<open>for w in text\<close>.\<close>

fun fill_words :: "int \<Rightarrow> 't list \<Rightarrow> 't list \<Rightarrow> 't list \<Rightarrow> 't list \<times> 't list" where
  "fill_words cap text_buffer prev_text_buffer [] = (text_buffer, prev_text_buffer)"
| "fill_words cap text_buffer prev_text_buffer (w # text) =
     (if int (length text_buffer) + 1 \<le> cap
      then fill_words cap (text_buffer @ [w]) prev_text_buffer text
      else fill_words cap text_buffer (prev_text_buffer @ [w]) text)"

text \<open>
  The outer loop \<^verbatim>\<open>for ex in self.buffer\<close>; each example starts with
  \<^verbatim>\<open>self.prev_text_buffer = []\<close>.
\<close>

fun fill_examples :: "int \<Rightarrow> 't list \<Rightarrow> 't list \<Rightarrow> 't list list \<Rightarrow> 't list \<times> 't list" where
  "fill_examples cap text_buffer prev_text_buffer [] = (text_buffer, prev_text_buffer)"
| "fill_examples cap text_buffer prev_text_buffer (ex # buffer) =
     (case fill_words cap text_buffer [] ex of
        (text_buffer1, prev1) \<Rightarrow> fill_examples cap text_buffer1 prev1 buffer)"

text \<open>The returned \<^verbatim>\<open>text_buffer\<close>, and \<^verbatim>\<open>self.prev_text_buffer\<close> afterwards.\<close>

definition get_contiguous_buffer ::
  "int \<Rightarrow> nat \<Rightarrow> 't list list \<Rightarrow> 't list \<Rightarrow> 't list \<times> 't list" where
  "get_contiguous_buffer buffer_size cur_bptt_len buffer prev_text_buffer =
     (let cap = buffer_size * int cur_bptt_len in
      case drain_prev cap [] prev_text_buffer of
        (text_buffer, prev1) \<Rightarrow>
          if length text_buffer = cur_bptt_len then (text_buffer, prev1)
          else fill_examples cap text_buffer prev1 buffer)"

text \<open>
  The buffering loop of \<^verbatim>\<open>LazyBPTTIterator.__iter__\<close> for one epoch, after its
  \<^verbatim>\<open>clear_buffer()\<close>: the token stream \<^verbatim>\<open>cur_text_buffer\<close> each call of
  \<^verbatim>\<open>consume_buffer\<close> takes from \<^verbatim>\<open>get_contiguous_buffer\<close>, in order.
  \<^verbatim>\<open>clear_buffer\<close> empties \<^verbatim>\<open>self.buffer\<close> and \<^verbatim>\<open>self.prev_text_buffer\<close>. This
  is the run in which every \<^verbatim>\<open>consume_buffer\<close> completes, as it does for a positive
  BPTT length and batch size; with a zero one the first \<^verbatim>\<open>consume_buffer\<close> raises and
  the run ends there.
\<close>

fun lazy_bptt_streams ::
  "int \<Rightarrow> nat \<Rightarrow> 't list list \<Rightarrow> 't list list \<Rightarrow> 't list \<Rightarrow> 't list list" where
  "lazy_bptt_streams buffer_size cur_bptt_len [] buffer prev_text_buffer =
     (if length buffer > 0
      then [fst (get_contiguous_buffer buffer_size cur_bptt_len buffer prev_text_buffer)]
      else [])"
| "lazy_bptt_streams buffer_size cur_bptt_len (ex # source) buffer prev_text_buffer =
     (let buffer1 = buffer @ [ex] in
      if int (length buffer1) = buffer_size then
        fst (get_contiguous_buffer buffer_size cur_bptt_len buffer1 prev_text_buffer) #
          lazy_bptt_streams buffer_size cur_bptt_len source [] []
      else lazy_bptt_streams buffer_size cur_bptt_len source buffer1 prev_text_buffer)"


subsection \<open>The \<^verbatim>\<open>Iterator\<close> class\<close>

text \<open>
  The configuration an \<^verbatim>\<open>Iterator\<close> is built with, after \<^verbatim>\<open>__init__\<close> has resolved
  the defaults. \<open>bucket\<close> tells a \<^verbatim>\<open>BucketIterator\<close>, which overrides only
  \<^verbatim>\<open>create_batches\<close>, from a plain \<^verbatim>\<open>Iterator\<close>.
\<close>

record ('a, 'k) config =
  dataset :: "'a list"
  batch_size :: int
  batch_size_fn :: "'a size_fn option"
  sort_key_fn :: "'a \<Rightarrow> 'k"
  repeat :: bool
  shuffle :: bool
  sort_flag :: bool
  sort_within_batch :: bool
  bucket :: bool

text \<open>The mutable attributes; \<open>random_shuffler\<close> is the state of \<^verbatim>\<open>self.random_shuffler\<close>.\<close>

record 'rs iterator =
  iterations :: int
  iterations_this_epoch :: int
  random_state_this_epoch :: "'rs option"
  restored_from_state :: bool
  random_shuffler :: "'rs option"

text \<open>
  The attributes \<^verbatim>\<open>__init__\<close> sets; \<^verbatim>\<open>RandomShuffler()\<close> starts from the state \<open>rs\<close> of
  the process-wide generator.
\<close>

definition new_iterator :: "'rs \<Rightarrow> 'rs iterator" where
  "new_iterator rs =
     \<lparr>iterations = 0, iterations_this_epoch = 0, random_state_this_epoch = None,
      restored_from_state = False, random_shuffler = Some rs\<rparr>"

text \<open>
  A checkpoint record: for each key \<^verbatim>\<open>load_state_dict\<close> reads, the value stored under
  it, or \<open>None\<close> when the record has no such key.
\<close>

record 'rs state_dict =
  sd_iterations :: "int option"
  sd_iterations_this_epoch :: "int option"
  sd_random_state_this_epoch :: "'rs option option"

definition state_dict :: "'rs iterator \<Rightarrow> 'rs state_dict" where
  "state_dict self =
     \<lparr>sd_iterations = Some (iterations self),
      sd_iterations_this_epoch = Some (iterations_this_epoch self),
      sd_random_state_this_epoch = Some (random_state_this_epoch self)\<rparr>"

text \<open>
  \<^verbatim>\<open>load_state_dict\<close>: the exception raised, if any, and the attributes afterwards. The
  four assignments run in order and a missing key raises \<^verbatim>\<open>KeyError\<close> at its lookup.
\<close>

definition load_state_dict :: "'rs state_dict \<Rightarrow> 'rs iterator \<Rightarrow> error option \<times> 'rs iterator" where
  "load_state_dict sd self =
     (case sd_iterations sd of
        None \<Rightarrow> (Some KeyError, self)
      | Some i \<Rightarrow>
          let self1 = self\<lparr>iterations := i\<rparr> in
          (case sd_iterations_this_epoch sd of
             None \<Rightarrow> (Some KeyError, self1)
           | Some j \<Rightarrow>
               let self2 = self1\<lparr>iterations_this_epoch := j\<rparr> in
               (case sd_random_state_this_epoch sd of
                  None \<Rightarrow> (Some KeyError, self2)
                | Some r \<Rightarrow>
                    (None, self2\<lparr>random_state_this_epoch := r, restored_from_state := True\<rparr>))))"


text \<open>
  \<^verbatim>\<open>data()\<close>, from the shuffler state \<open>rs\<close>: the examples in order, and the shuffler state
  afterwards. \<^verbatim>\<open>sorted\<close> is stable, as \<^const>\<open>sort_key\<close> is.
\<close>

definition data ::
  "'rs sampler \<Rightarrow> ('a, 'k::linorder) config \<Rightarrow> 'rs option \<Rightarrow> error + ('a list \<times> 'rs option)" where
  "data sample c rs =
     (if sort_flag c then Inr (sort_key (sort_key_fn c) (dataset c), rs)
      else if shuffle c then call_shuffler sample rs (dataset c)
      else Inr (dataset c, rs))"

text \<open>
  \<^verbatim>\<open>create_batches\<close> of \<^verbatim>\<open>Iterator\<close> and of \<^verbatim>\<open>BucketIterator\<close> (\<^verbatim>\<open>lookahead\<close> at its
  default of 100). \<^verbatim>\<open>self.data()\<close> runs at once, so its exception leaves
  \<^verbatim>\<open>create_batches\<close>; the generator stored in \<^verbatim>\<open>self.batches\<close> is given by the
  minibatches it yields and the exception that ends it, if any. The shuffler state is
  the one left when the generator is exhausted: nothing reads it before.
\<close>

definition create_batches ::
  "'rs sampler \<Rightarrow> ('a, 'k::linorder) config \<Rightarrow> 'rs option \<Rightarrow>
   error + ('a list list \<times> error option \<times> 'rs option)" where
  "create_batches sample c rs =
     (case data sample c rs of
        Inl e \<Rightarrow> Inl e
      | Inr (xs, rs1) \<Rightarrow>
          if bucket c \<and> \<not> sort_flag c then
            (case pool sample xs (batch_size c) (sort_key_fn c) (batch_size_fn c) (Some rs1)
                    (shuffle c) (sort_within_batch c) 100 of
               (out, err, r) \<Rightarrow> Inr (out, err, (case r of None \<Rightarrow> rs1 | Some rs2 \<Rightarrow> rs2)))
          else Inr (batch xs (batch_size c) (batch_size_fn c), None, rs1))"

text \<open>
  \<^verbatim>\<open>init_epoch\<close>: the attributes afterwards and the generator left in
  \<^verbatim>\<open>self.batches\<close>, or the exception of \<^verbatim>\<open>create_batches\<close>.
\<close>

definition init_epoch ::
  "'rs sampler \<Rightarrow> ('a, 'k::linorder) config \<Rightarrow> 'rs iterator \<Rightarrow>
   error + ('rs iterator \<times> 'a list list \<times> error option)" where
  "init_epoch sample c self =
     (let self1 = (if restored_from_state self
                   then self\<lparr>random_shuffler := random_state_this_epoch self\<rparr>
                   else self\<lparr>random_state_this_epoch := random_shuffler self\<rparr>)
      in case create_batches sample c (random_shuffler self1) of
           Inl e \<Rightarrow> Inl e
         | Inr (batches, err, rs') \<Rightarrow>
             let self2 = self1\<lparr>random_shuffler := rs'\<rparr>;
                 self3 = (if restored_from_state self2
                          then self2\<lparr>restored_from_state := False\<rparr>
                          else self2\<lparr>iterations_this_epoch := 0\<rparr>);
                 self4 = (if \<not> repeat c then self3\<lparr>iterations := 0\<rparr> else self3)
             in Inr (self4, batches, err))"

text \<open>
  \<^verbatim>\<open>minibatch.sort(key=self.sort_key, reverse=True)\<close>: a stable sort into descending
  order, which keeps equal keys in their original order.
\<close>

definition sort_reverse :: "('a \<Rightarrow> 'k::linorder) \<Rightarrow> 'a list \<Rightarrow> 'a list" where
  "sort_reverse key xs = rev (sort_key key (rev xs))"

text \<open>
  The in-place reordering of a minibatch before it is handed out:
  \<^verbatim>\<open>if self.sort_within_batch: if self.sort: minibatch.reverse() else: minibatch.sort(...)\<close>.
\<close>

definition reorder :: "('a, 'k::linorder) config \<Rightarrow> 'a list \<Rightarrow> 'a list" where
  "reorder c minibatch =
     (if sort_within_batch c then
        (if sort_flag c then rev minibatch else sort_reverse (sort_key_fn c) minibatch)
      else minibatch)"

text \<open>
  The loop \<^verbatim>\<open>for idx, minibatch in enumerate(self.batches)\<close> of
  \<^verbatim>\<open>Iterator.__iter__\<close>, from index \<open>idx\<close>. Each yield is recorded as the batch handed
  out together with what \<^verbatim>\<open>state_dict()\<close> returns while the generator is suspended
  there.
\<close>

fun iter_loop ::
  "('a, 'k::linorder) config \<Rightarrow> 'rs iterator \<Rightarrow> nat \<Rightarrow> 'a list list \<Rightarrow>
   ('a list \<times> 'rs state_dict) list \<times> 'rs iterator" where
  "iter_loop c self idx [] = ([], self)"
| "iter_loop c self idx (minibatch # batches) =
     (if iterations_this_epoch self > int idx then iter_loop c self (Suc idx) batches
      else
        let self1 = self\<lparr>iterations := iterations self + 1,
                         iterations_this_epoch := iterations_this_epoch self + 1\<rparr>;
            minibatch1 = reorder c minibatch
        in case iter_loop c self1 (Suc idx) batches of
             (out, self2) \<Rightarrow> ((minibatch1, state_dict self1) # out, self2))"

text \<open>How a run of the generator ends: it returns, it raises, or it is still running.\<close>

datatype outcome = Returned | Raised error | Running

text \<open>
  \<^verbatim>\<open>Iterator.__iter__\<close>, run for at most \<open>n\<close> passes of its \<^verbatim>\<open>while True\<close>: the yields in
  order and how the run ends. With \<^verbatim>\<open>repeat\<close> unset the first pass returns.
\<close>

fun iter_run ::
  "nat \<Rightarrow> 'rs sampler \<Rightarrow> ('a, 'k::linorder) config \<Rightarrow> 'rs iterator \<Rightarrow>
   ('a list \<times> 'rs state_dict) list \<times> outcome" where
  "iter_run 0 sample c self = ([], Running)"
| "iter_run (Suc n) sample c self =
     (case init_epoch sample c self of
        Inl e \<Rightarrow> ([], Raised e)
      | Inr (self1, batches, err) \<Rightarrow>
          (case iter_loop c self1 0 batches of
             (out, self2) \<Rightarrow>
               (case err of
                  Some e \<Rightarrow> (out, Raised e)
                | None \<Rightarrow>
                    if \<not> repeat c then (out, Returned)
                    else (case iter_run n sample c self2 of
                            (out', r) \<Rightarrow> (out @ out', r)))))"

subsection \<open>Sample inputs\<close>

text \<open>
  A size function that adds up token counts, for examples that are their own length,
  and a shuffler whose state is a counter \<open>s\<close>: it rotates the positions by \<open>s\<close> and
  steps the counter. Like \<^verbatim>\<open>random.setstate(None)\<close>, it raises \<^verbatim>\<open>TypeError\<close> when its
  state is \<^verbatim>\<open>None\<close>.
\<close>

definition tokens :: "int size_fn" where
  "tokens new cnt sofar = sofar + new"

definition rotating :: "nat sampler" where
  "rotating rs n =
     (case rs of None \<Rightarrow> Inl TypeError | Some s \<Rightarrow> Inr (rotate s [0..<n], Some (Suc s)))"

text \<open>
  An iterator over five examples that are their own sort key, in batches of two, shuffled
  and sorted within each batch; and a checkpoint record without the key
  \<^verbatim>\<open>iterations_this_epoch\<close>.
\<close>

definition cfg5 :: "(int, int) config" where
  "cfg5 = \<lparr>dataset = [3, 1, 2, 5, 4], batch_size = 2, batch_size_fn = None, sort_key_fn = id,
     repeat = False, shuffle = True, sort_flag = False, sort_within_batch = True,
     bucket = False\<rparr>"

definition rec_partial :: "nat state_dict" where
  "rec_partial = \<lparr>sd_iterations = Some 5, sd_iterations_this_epoch = None,
     sd_random_state_this_epoch = Some (Some 7)\<rparr>"


section \<open>Properties of \<^verbatim>\<open>batch\<close>\<close>

lemma batch_loop_concat:
  "concat (batch_loop f bs xs mb sz) = mb @ xs"
  by (induction xs arbitrary: mb sz) (simp_all add: Let_def)

lemma batch_concat: "concat (batch xs bs fo) = xs"
  by (simp add: batch_def batch_loop_concat)

lemma batch_loop_nonempty: "mb @ xs \<noteq> [] \<Longrightarrow> batch_loop f cap xs mb sz \<noteq> []"
proof
  assume ne: "mb @ xs \<noteq> []" and e: "batch_loop f cap xs mb sz = []"
  have "concat (batch_loop f cap xs mb sz) = mb @ xs" by (rule batch_loop_concat)
  with e ne show False by simp
qed

lemma batch_nonempty: "xs \<noteq> [] \<Longrightarrow> batch xs cap fo \<noteq> []"
  by (simp add: batch_def batch_loop_nonempty)

lemma batch_loop_last:
  "xs \<noteq> [] \<Longrightarrow>
   last (batch_loop f cap xs mb sz) \<noteq> [] \<and> last (last (batch_loop f cap xs mb sz)) = last xs"
proof (induction xs arbitrary: mb sz)
  case Nil
  then show ?case by simp
next
  case (Cons x xs)
  show ?case
  proof (cases "xs = []")
    case True
    then show ?thesis by (simp add: Let_def)
  next
    case False
    note ih = Cons.IH [OF False]
    from False have ne: "\<And>mb sz. batch_loop f cap xs mb sz \<noteq> []"
      by (simp add: batch_loop_nonempty)
    show ?thesis using False ih ne by (simp add: Let_def)
  qed
qed

lemma batch_loop_for:
  "batch_loop f cap xs mb sz =
     (case batch_for f cap xs mb sz of
        (out, mb', sz') \<Rightarrow> out @ (if mb' \<noteq> [] then [mb'] else []))"
  by (induction xs arbitrary: mb sz) (simp_all add: Let_def split: prod.splits)

lemma batch_for_append:
  "batch_for f cap pre mb sz = (yielded, mb', sz') \<Longrightarrow>
   batch_loop f cap (pre @ rest) mb sz = yielded @ batch_loop f cap rest mb' sz'"
proof (induction pre arbitrary: mb sz yielded)
  case Nil
  then show ?case by simp
next
  case (Cons x pre)
  let ?mb1 = "mb @ [x]"
  let ?s1 = "f x (int (length ?mb1)) sz"
  consider (eq) "?s1 = cap" | (gt) "?s1 > cap" | (lt) "?s1 < cap" by linarith
  then show ?case
  proof cases
    case eq
    with Cons.prems obtain out where r: "batch_for f cap pre [] 0 = (out, mb', sz')"
      and c: "yielded = ?mb1 # out" by (auto simp: Let_def split: prod.splits)
    from Cons.IH [OF r] eq c show ?thesis by (simp add: Let_def)
  next
    case gt
    with Cons.prems obtain out where r: "batch_for f cap pre [x] (f x 1 0) = (out, mb', sz')"
      and c: "yielded = mb # out" by (auto simp: Let_def split: prod.splits)
    from Cons.IH [OF r] gt c show ?thesis by (simp add: Let_def)
  next
    case lt
    with Cons.prems have r: "batch_for f cap pre ?mb1 ?s1 = (yielded, mb', sz')"
      by (simp add: Let_def)
    from Cons.IH [OF r] lt show ?thesis by (simp add: Let_def)
  qed
qed

lemma batch_loop_starts_with:
  "mb \<noteq> [] \<Longrightarrow> \<exists>b bs. batch_loop f cap xs mb sz = b # bs \<and> take (length mb) b = mb"
proof (induction xs arbitrary: mb sz)
  case Nil
  then show ?case by simp
next
  case (Cons x xs)
  have ne: "mb @ [x] \<noteq> []" by simp
  from Cons.IH [OF ne, of "f x (int (length (mb @ [x]))) sz"]
  obtain b bs where e: "batch_loop f cap xs (mb @ [x]) (f x (int (length (mb @ [x]))) sz) = b # bs"
    and t: "take (length (mb @ [x])) b = mb @ [x]" by blast
  have "take (length mb) b = take (length mb) (take (length (mb @ [x])) b)"
    by (simp add: min_def)
  also have "\<dots> = mb" by (simp only: t) simp
  finally have "take (length mb) b = mb" .
  with e show ?case by (auto simp: Let_def)
qed

text \<open>
  Claim C3. Cut the input of \<^verbatim>\<open>batch\<close> anywhere, into a prefix \<open>pre\<close>, the current
  example \<open>ex\<close> and the rest. Let the loop, run on the prefix alone, have yielded the
  batches \<open>yielded\<close> and hold the pending minibatch \<open>mb\<close> with running total \<open>sz\<close>, and
  let \<open>f\<close> be the size function in force. When \<open>f\<close> returns exactly the capacity for
  \<open>ex\<close>, the batch is closed with \<open>ex\<close> and the rest is batched afresh. When it returns
  more, the batch is closed without \<open>ex\<close>, and the next batch yielded is not empty and
  starts with \<open>ex\<close>. When it returns less and the source ends there, the minibatch with
  \<open>ex\<close> is yielded as the trailing batch. At exhaustion the pending minibatch is yielded
  exactly when it is not empty; an empty input yields no batch; and for a non-empty
  input the last batch yielded is not empty and ends with the last example.
\<close>

theorem batch_closing_rule:
  assumes f: "f = (case fo of None \<Rightarrow> count_fn | Some g \<Rightarrow> g)"
    and st: "batch_for f cap pre [] 0 = (yielded, mb, sz)"
  shows "(f ex (int (length mb) + 1) sz = cap \<longrightarrow>
            batch (pre @ ex # rest) cap fo = yielded @ (mb @ [ex]) # batch rest cap fo) \<and>
         (f ex (int (length mb) + 1) sz > cap \<longrightarrow>
            batch (pre @ ex # rest) cap fo =
              yielded @ mb # batch_loop f cap rest [ex] (f ex 1 0) \<and>
            (\<exists>b bs. batch (pre @ ex # rest) cap fo = yielded @ mb # b # bs \<and> b \<noteq> [] \<and>
               hd b = ex)) \<and>
         (f ex (int (length mb) + 1) sz < cap \<longrightarrow>
            batch (pre @ [ex]) cap fo = yielded @ [mb @ [ex]]) \<and>
         batch pre cap fo = yielded @ (if mb \<noteq> [] then [mb] else []) \<and>
         batch [] cap fo = [] \<and>
         (xs \<noteq> [] \<longrightarrow> batch xs cap fo \<noteq> [] \<and> last (batch xs cap fo) \<noteq> [] \<and>
            last (last (batch xs cap fo)) = last xs)"
proof -
  have split: "batch (pre @ ys) cap fo = yielded @ batch_loop f cap ys mb sz" for ys
    using batch_for_append [OF st, of ys] by (simp add: batch_def f)
  have len: "int (length (mb @ [ex])) = int (length mb) + 1" by simp
  have 1: "f ex (int (length mb) + 1) sz = cap \<longrightarrow>
            batch (pre @ ex # rest) cap fo = yielded @ (mb @ [ex]) # batch rest cap fo"
    unfolding split by (simp add: Let_def add.commute batch_def f)
  have 2: "f ex (int (length mb) + 1) sz > cap \<longrightarrow>
            batch (pre @ ex # rest) cap fo =
              yielded @ mb # batch_loop f cap rest [ex] (f ex 1 0)"
    unfolding split by (simp add: Let_def add.commute)
  obtain b bs where b: "batch_loop f cap rest [ex] (f ex 1 0) = b # bs"
    and t: "take (length [ex]) b = [ex]"
    using batch_loop_starts_with [of "[ex]" f cap rest "f ex 1 0"] by blast
  from t have hb: "b \<noteq> []" "hd b = ex" by (cases b; simp)+
  have 3: "f ex (int (length mb) + 1) sz < cap \<longrightarrow>
            batch (pre @ [ex]) cap fo = yielded @ [mb @ [ex]]"
    unfolding split by (simp add: Let_def add.commute)
  have 4: "batch pre cap fo = yielded @ (if mb \<noteq> [] then [mb] else [])"
    using split [of "[]"] by simp
  have 5: "batch [] cap fo = []" by (simp add: batch_def)
  have 6: "xs \<noteq> [] \<longrightarrow> batch xs cap fo \<noteq> [] \<and> last (batch xs cap fo) \<noteq> [] \<and>
      last (last (batch xs cap fo)) = last xs"
    by (simp add: batch_def batch_loop_nonempty batch_loop_last)
  from 1 2 b hb 3 4 5 6 show ?thesis by simp
qed

lemma pre2: "batch_for tokens 5 [2::int] [] 0 = ([], [2], 2)"
  by (simp add: tokens_def Let_def)

theorem batch_closing_rule_witness:
  "batch_for tokens 5 [2::int] [] 0 = ([], [2], 2) \<and>
   tokens 3 (int (length [2::int]) + 1) 2 = 5 \<and>
   batch ([2] @ 3 # [4, 1]) 5 (Some tokens) = [] @ ([2] @ [3]) # batch [4, 1] 5 (Some tokens) \<and>
   tokens 4 (int (length [2::int]) + 1) 2 > 5 \<and>
   batch ([2] @ 4 # [1]) 5 (Some tokens) = [[2], [4, 1]] \<and>
   tokens 1 (int (length [2::int]) + 1) 2 < 5 \<and>
   batch ([2] @ [1]) 5 (Some tokens) = [[2, 1]]"
proof -
  have f: "tokens = (case Some tokens of None \<Rightarrow> count_fn | Some g \<Rightarrow> g)" by simp
  note r = batch_closing_rule [OF f pre2]
  from r [of 3 "[4, 1]"] r [of 4 "[1]"] r [of 1] pre2 show ?thesis
    by (simp add: tokens_def Let_def)
qed

section \<open>Properties of \<^verbatim>\<open>pool\<close>\<close>

lemma mset_rotate1: "mset (rotate1 xs) = mset xs"
  by (cases xs) simp_all

lemma mset_rotate: "mset (rotate n xs) = mset xs"
  by (induction n) (simp_all add: mset_rotate1)

lemma permuting_rotating: "permuting rotating"
  unfolding permuting_def rotating_def
  by (auto split: option.splits simp: mset_rotate simp del: mset_upt)

lemma call_shuffler_mset:
  assumes "permuting sample" "call_shuffler sample rs xs = Inr (ys, rs')"
  shows "mset ys = mset xs"
proof -
  from assms(2) obtain order where s: "sample rs (length xs) = Inr (order, rs')"
    and ys: "ys = map (\<lambda>i. xs ! i) order"
    by (auto simp: call_shuffler_def split: sum.splits if_splits)
  from assms(1) s have "mset order = mset [0..<length xs]"
    unfolding permuting_def by blast
  then have "image_mset (\<lambda>i. xs ! i) (mset order) =
             image_mset (\<lambda>i. xs ! i) (mset [0..<length xs])"
    by (simp only:)
  then have "mset (map (\<lambda>i. xs ! i) order) = mset (map (\<lambda>i. xs ! i) [0..<length xs])"
    by (simp only: mset_map)
  then show ?thesis using ys by (simp only: map_nth)
qed

lemma mset_concat_sum: "mset (concat xs) = sum_mset (image_mset mset (mset xs))"
  by (induction xs) simp_all

lemma mset_concat_cong: "mset ys = mset xs \<Longrightarrow> mset (concat ys) = mset (concat xs)"
  by (simp only: mset_concat_sum)

lemma pool_loop_mset:
  assumes "permuting sample"
  shows "pool_loop sample ps cap key fo rsh sh swb = (out, None, r) \<Longrightarrow>
         mset (concat out) = mset (concat ps)"
proof (induction ps arbitrary: rsh out r)
  case Nil
  then show ?case by simp
next
  case (Cons p ps)
  let ?p1 = "if swb then sort_key key p else p"
  have p1: "mset ?p1 = mset p" by simp
  show ?case
  proof (cases sh)
    case False
    with Cons.prems obtain out' where
      rec: "pool_loop sample ps cap key fo rsh sh swb = (out', None, r)"
      and out: "out = batch ?p1 cap fo @ out'"
      by (auto simp: Let_def split: prod.splits)
    from Cons.IH [OF rec] have "mset (concat out') = mset (concat ps)" .
    with out p1 show ?thesis by (simp add: batch_concat)
  next
    case True
    with Cons.prems obtain rs bs rs' out' where
      rsh: "rsh = Some rs"
      and cs: "call_shuffler sample rs (batch ?p1 cap fo) = Inr (bs, rs')"
      and rec: "pool_loop sample ps cap key fo (Some rs') sh swb = (out', None, r)"
      and out: "out = bs @ out'"
      by (auto simp: Let_def split: prod.splits option.splits sum.splits)
    from call_shuffler_mset [OF assms cs]
    have "mset (concat bs) = mset (concat (batch ?p1 cap fo))"
      by (rule mset_concat_cong)
    moreover from Cons.IH [OF rec] have "mset (concat out') = mset (concat ps)" .
    ultimately show ?thesis using out p1 by (simp add: batch_concat)
  qed
qed

lemma pool_loop_no_shuffle:
  "pool_loop sample ps cap key fo rsh False swb =
     (concat (map (\<lambda>p. batch (if swb then sort_key key p else p) cap fo) ps), None, rsh)"
  by (induction ps) (simp_all add: Let_def)

text \<open>
  Claim C2. The batches of \<^verbatim>\<open>batch\<close> hold exactly the input examples, each once.
  So do the batches of \<^verbatim>\<open>pool\<close>: without shuffling it always runs to the end and
  covers the input; with shuffling it covers the input whenever it runs to the end
  without raising and the shuffler returns permutations.
\<close>

theorem batch_pool_coverage:
  "mset (concat (batch xs cap fo)) = mset xs \<and>
   (\<exists>out. pool sample xs cap key fo rsh False swb la = (out, None, rsh) \<and>
          mset (concat out) = mset xs) \<and>
   (permuting sample \<longrightarrow> pool sample xs cap key fo rsh True swb la = (out', None, r) \<longrightarrow>
      mset (concat out') = mset xs)"
proof (intro conjI impI)
  show "mset (concat (batch xs cap fo)) = mset xs" by (simp only: batch_concat)
next
  let ?out = "concat (map (\<lambda>p. batch (if swb then sort_key key p else p) cap fo)
                (batch xs (cap * la) fo))"
  have e: "pool sample xs cap key fo rsh False swb la = (?out, None, rsh)"
    by (simp only: pool_def pool_loop_no_shuffle)
  have "permuting (\<lambda>rs n. Inl TypeError :: error + nat list \<times> 'c option)"
    by (simp add: permuting_def)
  then have "mset (concat ?out) = mset (concat (batch xs (cap * la) fo))"
    using pool_loop_mset [where sh = False and rsh = "None :: 'c option option",
        OF _ pool_loop_no_shuffle]
    by blast
  then have "mset (concat ?out) = mset xs" by (simp only: batch_concat)
  with e show "\<exists>out. pool sample xs cap key fo rsh False swb la = (out, None, rsh) \<and>
          mset (concat out) = mset xs" by blast
next
  assume p: "permuting sample"
    and e: "pool sample xs cap key fo rsh True swb la = (out', None, r)"
  from e have "pool_loop sample (batch xs (cap * la) fo) cap key fo rsh True swb = (out', None, r)"
    by (simp only: pool_def)
  from pool_loop_mset [OF p this] show "mset (concat out') = mset xs"
    by (simp only: batch_concat)
qed

theorem batch_pool_coverage_witness:
  "permuting rotating \<and>
   pool rotating [3, 1, 2, 5, 4::nat] 2 id None (Some (Some 1)) True True 2 =
     ([[3, 5], [1, 2], [4]], None, Some (Some 3)) \<and>
   mset (concat [[3, 5], [1, 2], [4::nat]]) = mset [3, 1, 2, 5, 4] \<and>
   mset (concat (batch [3, 1, 2, 5, 4::nat] 2 None)) = mset [3, 1, 2, 5, 4]"
proof -
  have e: "pool rotating [3, 1, 2, 5, 4::nat] 2 id None (Some (Some 1)) True True 2 =
     ([[3, 5], [1, 2], [4]], None, Some (Some 3))"
    by code_simp
  from batch_pool_coverage [where sample = rotating and xs = "[3, 1, 2, 5, 4::nat]" and cap = 2
      and key = id and fo = None and rsh = "Some (Some 1)" and swb = True and la = 2
      and out' = "[[3, 5], [1, 2], [4]]" and r = "Some (Some 3)"] permuting_rotating e
  show ?thesis by simp
qed

text \<open>
  Claim C4 on the code. The docstring of \<^verbatim>\<open>pool\<close> says that it sorts the examples
  within each chunk by the sort key, and the claim says so for every call. The code
  sorts a window only under \<^verbatim>\<open>if sort_within_batch:\<close>. With the flag unset, as it is
  by default, the single window \<open>[3, 1, 2]\<close> is batched as it came, with or without
  shuffling, where the window in ascending order gives the batch \<open>[1, 2, 3]\<close>.
\<close>

theorem pool_unsorted_window:
  "batch [3, 1, 2::nat] (3 * 1) None = [[3, 1, 2]] \<and>
   fst (pool rotating [3, 1, 2::nat] 3 id None None False False 1) = [[3, 1, 2]] \<and>
   fst (pool rotating [3, 1, 2::nat] 3 id None (Some (Some 0)) True False 1) = [[3, 1, 2]] \<and>
   batch (sort_key id [3, 1, 2::nat]) 3 None = [[1, 2, 3]] \<and>
   fst (pool rotating [3, 1, 2::nat] 3 id None None False False 1) \<noteq>
     batch (sort_key id [3, 1, 2]) 3 None"
  by code_simp

text \<open>
  Claim C10. On a non-empty input, \<^verbatim>\<open>pool\<close> with \<^verbatim>\<open>shuffle\<close> set and no shuffler
  supplied raises \<^verbatim>\<open>TypeError\<close> at its first window, before it yields any batch.
\<close>

theorem pool_default_shuffler_raises:
  "xs \<noteq> [] \<Longrightarrow> pool sample xs cap key fo None True swb la = ([], Some TypeError, None)"
proof -
  assume "xs \<noteq> []"
  then obtain p ps where "batch xs (cap * la) fo = p # ps"
    using batch_nonempty [of xs "cap * la" fo] by (cases "batch xs (cap * la) fo") auto
  then show ?thesis by (simp add: pool_def Let_def)
qed

theorem pool_default_shuffler_raises_witness:
  "[7::nat] \<noteq> [] \<and>
   pool rotating [7::nat] 1 id None None True False 100 = ([], Some TypeError, None)"
  using pool_default_shuffler_raises [where xs = "[7::nat]" and sample = rotating and cap = 1
     and key = id and fo = None and swb = False and la = 100]
  by simp

section \<open>The length query and the checkpoint record\<close>






text \<open>
  Claim C9 as stated fails: a record that has \<^verbatim>\<open>iterations\<close> but lacks
  \<^verbatim>\<open>iterations_this_epoch\<close> raises \<^verbatim>\<open>KeyError\<close> after \<^verbatim>\<open>self.iterations\<close> has been
  overwritten.
\<close>

theorem load_state_dict_partial:
  "load_state_dict rec_partial (new_iterator 0) = (Some KeyError, (new_iterator 0)\<lparr>iterations := 5\<rparr>) \<and>
   snd (load_state_dict rec_partial (new_iterator 0)) \<noteq> new_iterator 0"
  by (simp add: load_state_dict_def rec_partial_def new_iterator_def)

text \<open>
  Claim C9, as amended. For a record that lacks one of the three keys,
  \<^verbatim>\<open>load_state_dict\<close> raises \<^verbatim>\<open>KeyError\<close>; the restored flag, the saved random state and
  the shuffler are unchanged; the counters whose keys come before the first missing key,
  in the order \<^verbatim>\<open>iterations\<close>, \<^verbatim>\<open>iterations_this_epoch\<close>, are overwritten and nothing
  else is, so the attributes are unchanged when \<^verbatim>\<open>iterations\<close> is the missing key.
\<close>

theorem load_state_dict_missing_key:
  assumes "sd_iterations sd = None \<or> sd_iterations_this_epoch sd = None \<or>
           sd_random_state_this_epoch sd = None"
  shows "fst (load_state_dict sd self) = Some KeyError \<and>
         restored_from_state (snd (load_state_dict sd self)) = restored_from_state self \<and>
         random_state_this_epoch (snd (load_state_dict sd self)) = random_state_this_epoch self \<and>
         random_shuffler (snd (load_state_dict sd self)) = random_shuffler self \<and>
         snd (load_state_dict sd self) =
           (case sd_iterations sd of
              None \<Rightarrow> self
            | Some i \<Rightarrow>
                (case sd_iterations_this_epoch sd of
                   None \<Rightarrow> self\<lparr>iterations := i\<rparr>
                 | Some j \<Rightarrow> self\<lparr>iterations := i, iterations_this_epoch := j\<rparr>))"
  using assms by (auto simp: load_state_dict_def Let_def split: option.splits)

theorem load_state_dict_missing_key_witness:
  "sd_iterations_this_epoch rec_partial = None \<and>
   fst (load_state_dict rec_partial (new_iterator 0)) = Some KeyError \<and>
   restored_from_state (snd (load_state_dict rec_partial (new_iterator 0))) = False \<and>
   iterations (snd (load_state_dict rec_partial (new_iterator 0))) = 5"
  using load_state_dict_missing_key [of rec_partial "new_iterator 0"]
  by (simp add: rec_partial_def new_iterator_def)

section \<open>The streaming BPTT buffer\<close>

text \<open>
  Claim C7 on the code. With a buffer of one example and a BPTT length of two, the
  stream of the examples \<open>abc\<close> and \<open>de\<close> is consumed as \<open>ab\<close> and then \<open>de\<close>: the
  token \<open>c\<close> left over by the first buffer is in \<^verbatim>\<open>prev_text_buffer\<close> when
  \<^verbatim>\<open>get_contiguous_buffer\<close> returns, and \<^verbatim>\<open>clear_buffer\<close> discards it before the next
  buffer. Within one buffer of two examples, the token \<open>c\<close> left over by the first
  example is discarded when the second example resets \<^verbatim>\<open>prev_text_buffer\<close>.
\<close>

theorem lazy_bptt_tokens_lost:
  "lazy_bptt_streams 1 2 [''abc'', ''de''] [] [] = [''ab'', ''de''] \<and>
   concat (lazy_bptt_streams 1 2 [''abc'', ''de''] [] []) \<noteq> concat [''abc'', ''de''] \<and>
   get_contiguous_buffer 1 2 [''abc''] [] = (''ab'', ''c'') \<and>
   get_contiguous_buffer 2 1 [''abc'', ''d''] [] = (''ab'', ''d'')"
  by (simp add: get_contiguous_buffer_def)

section \<open>The batches of \<^verbatim>\<open>Iterator.__iter__\<close>\<close>

lemma sorted_concat_member:
  "sorted (map key (concat xss)) \<Longrightarrow> mb \<in> set xss \<Longrightarrow> sorted (map key mb)"
  by (induction xss) (auto simp: sorted_append)

lemma batch_sorted_member:
  "sorted (map key xs) \<Longrightarrow> mb \<in> set (batch xs cap fo) \<Longrightarrow> sorted (map key mb)"
  using sorted_concat_member [of key "batch xs cap fo" mb] by (simp add: batch_concat)

lemma iter_loop_member:
  "(b, ck) \<in> set (fst (iter_loop c s idx bs)) \<Longrightarrow> \<exists>mb \<in> set bs. b = reorder c mb"
proof (induction bs arbitrary: s idx)
  case Nil
  then show ?case by simp
next
  case (Cons a bs)
  show ?case
  proof (cases "iterations_this_epoch s > int idx")
    case True
    with Cons.prems have "(b, ck) \<in> set (fst (iter_loop c s (Suc idx) bs))" by simp
    from Cons.IH [OF this] show ?thesis by auto
  next
    case False
    let ?s1 = "s\<lparr>iterations := iterations s + 1,
                 iterations_this_epoch := iterations_this_epoch s + 1\<rparr>"
    from False Cons.prems have "b = reorder c a \<or> (b, ck) \<in> set (fst (iter_loop c ?s1 (Suc idx) bs))"
      by (auto simp: Let_def split: prod.splits)
    then show ?thesis using Cons.IH [of ?s1 "Suc idx"] by auto
  qed
qed

lemma iter_run_member:
  "(b, ck) \<in> set (fst (iter_run n sample c s)) \<Longrightarrow>
   \<exists>s0 s1 bs err. init_epoch sample c s0 = Inr (s1, bs, err) \<and> (\<exists>mb \<in> set bs. b = reorder c mb)"
proof (induction n arbitrary: s)
  case 0
  then show ?case by simp
next
  case (Suc n)
  show ?case
  proof (cases "init_epoch sample c s")
    case (Inl e)
    with Suc.prems show ?thesis by simp
  next
    case (Inr t)
    then obtain s1 bs err where t: "init_epoch sample c s = Inr (s1, bs, err)"
      by (cases t) auto
    obtain out s2 where l: "iter_loop c s1 0 bs = (out, s2)" by (cases "iter_loop c s1 0 bs")
    show ?thesis
    proof (cases "(b, ck) \<in> set out")
      case True
      with l iter_loop_member [of b ck c s1 0 bs] t show ?thesis by auto
    next
      case False
      with Suc.prems t l have "(b, ck) \<in> set (fst (iter_run n sample c s2))"
        by (auto split: option.splits if_splits prod.splits)
      from Suc.IH [OF this] show ?thesis .
    qed
  qed
qed

lemma run5:
  "iter_run 1 rotating cfg5 (new_iterator 1) =
     ([([2, 1], \<lparr>sd_iterations = Some 1, sd_iterations_this_epoch = Some 1,
                 sd_random_state_this_epoch = Some (Some 1)\<rparr>),
       ([5, 4], \<lparr>sd_iterations = Some 2, sd_iterations_this_epoch = Some 2,
                 sd_random_state_this_epoch = Some (Some 1)\<rparr>),
       ([3], \<lparr>sd_iterations = Some 3, sd_iterations_this_epoch = Some 3,
               sd_random_state_this_epoch = Some (Some 1)\<rparr>)], Returned)"
  by code_simp

section \<open>Checkpoints\<close>

lemma iter_loop_skip:
  "int idx + int N \<le> iterations_this_epoch s \<Longrightarrow> N \<le> length bs \<Longrightarrow>
   iter_loop c s idx bs = iter_loop c s (idx + N) (drop N bs)"
proof (induction N arbitrary: idx bs)
  case 0
  then show ?case by simp
next
  case (Suc N)
  then obtain a bs' where bs: "bs = a # bs'" by (cases bs) auto
  from Suc.prems have gt: "iterations_this_epoch s > int idx" by simp
  from Suc.prems bs have "int (Suc idx) + int N \<le> iterations_this_epoch s" "N \<le> length bs'"
    by simp_all
  from Suc.IH [OF this] gt bs show ?case by simp
qed

lemma iter_loop_no_skip:
  "iterations_this_epoch s \<le> int idx \<Longrightarrow>
   iter_loop c s idx bs =
     (map (\<lambda>(k, mb). (reorder c mb,
            \<lparr>sd_iterations = Some (iterations s + int k + 1),
             sd_iterations_this_epoch = Some (iterations_this_epoch s + int k + 1),
             sd_random_state_this_epoch = Some (random_state_this_epoch s)\<rparr>))
        (enumerate 0 bs),
      s\<lparr>iterations := iterations s + int (length bs),
        iterations_this_epoch := iterations_this_epoch s + int (length bs)\<rparr>)"
proof (induction bs arbitrary: s idx)
  case Nil
  then show ?case by simp
next
  case (Cons a bs)
  let ?s1 = "s\<lparr>iterations := iterations s + 1,
               iterations_this_epoch := iterations_this_epoch s + 1\<rparr>"
  from Cons.prems have le: "iterations_this_epoch ?s1 \<le> int (Suc idx)" by simp
  from Cons.prems have ns: "\<not> iterations_this_epoch s > int idx" by simp
  show ?case
    using ns by (simp add: Let_def Cons.IH [OF le] state_dict_def enumerate_Suc_eq
        split_def comp_def add.assoc)
qed

lemma iter_loop_iterations:
  "map fst (fst (iter_loop c (s\<lparr>iterations := i\<rparr>) idx bs)) = map fst (fst (iter_loop c s idx bs)) \<and>
   (\<exists>i'. snd (iter_loop c (s\<lparr>iterations := i\<rparr>) idx bs) =
          (snd (iter_loop c s idx bs))\<lparr>iterations := i'\<rparr>)"
proof (induction bs arbitrary: s i idx)
  case Nil
  show ?case by auto
next
  case (Cons a bs)
  show ?case
  proof (cases "iterations_this_epoch s > int idx")
    case True
    with Cons.IH [where s = s and i = i and idx = "Suc idx"] show ?thesis by simp
  next
    case False
    let ?s1 = "s\<lparr>iterations := iterations s + 1,
                 iterations_this_epoch := iterations_this_epoch s + 1\<rparr>"
    let ?t1 = "s\<lparr>iterations := i + 1,
                 iterations_this_epoch := iterations_this_epoch s + 1\<rparr>"
    have e: "?s1\<lparr>iterations := i + 1\<rparr> = ?t1" by (cases s) simp
    note ih = Cons.IH [where s = ?s1 and i = "i + 1" and idx = "Suc idx", unfolded e]
    have l: "iter_loop c s idx (a # bs) =
               ((reorder c a, state_dict ?s1) # fst (iter_loop c ?s1 (Suc idx) bs),
                snd (iter_loop c ?s1 (Suc idx) bs))"
      using False by (simp add: Let_def split_def)
    have r: "iter_loop c (s\<lparr>iterations := i\<rparr>) idx (a # bs) =
               ((reorder c a, state_dict ?t1) # fst (iter_loop c ?t1 (Suc idx) bs),
                snd (iter_loop c ?t1 (Suc idx) bs))"
      using False by (simp add: Let_def split_def)
    show ?thesis unfolding l r using ih by simp
  qed
qed

lemma init_epoch_iterations:
  "init_epoch sample c (s\<lparr>iterations := i\<rparr>) =
     (case init_epoch sample c s of
        Inl e \<Rightarrow> Inl e
      | Inr (s1, bs, err) \<Rightarrow> Inr (s1\<lparr>iterations := (if \<not> repeat c then 0 else i)\<rparr>, bs, err))"
  by (simp add: init_epoch_def Let_def split: sum.splits prod.splits)

lemma iter_run_Suc:
  "init_epoch sample c s = Inr (s1, bs, err) \<Longrightarrow> iter_loop c s1 0 bs = (out, s2) \<Longrightarrow>
   iter_run (Suc n) sample c s =
     (case err of
        Some e \<Rightarrow> (out, Raised e)
      | None \<Rightarrow>
          if \<not> repeat c then (out, Returned)
          else (out @ fst (iter_run n sample c s2), snd (iter_run n sample c s2)))"
  by (simp split: option.splits prod.splits)

lemma iter_run_iterations:
  "map fst (fst (iter_run n sample c (s\<lparr>iterations := i\<rparr>))) = map fst (fst (iter_run n sample c s)) \<and>
   snd (iter_run n sample c (s\<lparr>iterations := i\<rparr>)) = snd (iter_run n sample c s)"
proof (induction n arbitrary: s i)
  case 0
  show ?case by simp
next
  case (Suc n)
  show ?case
  proof (cases "init_epoch sample c s")
    case (Inl e)
    then show ?thesis by (simp add: init_epoch_iterations)
  next
    case (Inr t)
    obtain s1 bs err where t: "t = (s1, bs, err)" by (cases t)
    define j where "j = (if \<not> repeat c then 0 else i)"
    have ie: "init_epoch sample c (s\<lparr>iterations := i\<rparr>) = Inr (s1\<lparr>iterations := j\<rparr>, bs, err)"
      using Inr t by (simp add: init_epoch_iterations j_def)
    have ie0: "init_epoch sample c s = Inr (s1, bs, err)" using Inr t by simp
    obtain out s2 where l: "iter_loop c s1 0 bs = (out, s2)" by (cases "iter_loop c s1 0 bs")
    obtain out' s2' where l': "iter_loop c (s1\<lparr>iterations := j\<rparr>) 0 bs = (out', s2')"
      by (cases "iter_loop c (s1\<lparr>iterations := j\<rparr>) 0 bs")
    have "map fst (fst (iter_loop c (s1\<lparr>iterations := j\<rparr>) 0 bs)) =
            map fst (fst (iter_loop c s1 0 bs)) \<and>
          (\<exists>i'. snd (iter_loop c (s1\<lparr>iterations := j\<rparr>) 0 bs) =
                 (snd (iter_loop c s1 0 bs))\<lparr>iterations := i'\<rparr>)"
      by (rule iter_loop_iterations)
    with l l' obtain i' where o: "map fst out' = map fst out"
      and s: "s2' = s2\<lparr>iterations := i'\<rparr>"
      by auto
    from Suc.IH [where s = s2 and i = i'] s
    have r: "map fst (fst (iter_run n sample c s2')) = map fst (fst (iter_run n sample c s2))"
      "snd (iter_run n sample c s2') = snd (iter_run n sample c s2)" by simp_all
    show ?thesis
      unfolding iter_run_Suc [OF ie l'] iter_run_Suc [OF ie0 l]
      using o r by (simp split: option.splits)
  qed
qed

lemma init_epoch_fresh:
  assumes "\<not> restored_from_state s" "init_epoch sample c s = Inr (s1, bs, err)"
  shows "\<exists>rs'. create_batches sample c (random_shuffler s) = Inr (bs, err, rs') \<and>
           s1 = s\<lparr>iterations := (if \<not> repeat c then 0 else iterations s),
                  iterations_this_epoch := 0,
                  random_state_this_epoch := random_shuffler s,
                  random_shuffler := rs'\<rparr>"
  using assms by (cases s) (auto simp: init_epoch_def Let_def split: sum.splits prod.splits)

lemma init_epoch_restored:
  assumes "restored_from_state s"
    "create_batches sample c (random_state_this_epoch s) = Inr (bs, err, rs')"
  shows "init_epoch sample c s =
           Inr (s\<lparr>iterations := (if \<not> repeat c then 0 else iterations s),
                  restored_from_state := False, random_shuffler := rs'\<rparr>, bs, err)"
  using assms by (cases s) (auto simp: init_epoch_def Let_def split: sum.splits prod.splits)

lemma map_fst_no_skip:
  "map fst (map (\<lambda>(k, mb). (reorder c mb, g k)) (enumerate n bs)) = map (reorder c) bs"
  by (induction bs arbitrary: n) simp_all

text \<open>
  A run with \<^verbatim>\<open>repeat\<close> set that has completed some epochs continues as a run from the
  state the last epoch left, and that state is not a restored one: a checkpoint taken
  in any later epoch is a checkpoint taken in the first epoch of such a state.
\<close>

lemma iter_loop_restored:
  "restored_from_state (snd (iter_loop c s idx bs)) = restored_from_state s"
proof (induction bs arbitrary: s idx)
  case Nil
  show ?case by simp
next
  case (Cons a bs)
  show ?case
    by (cases "iterations_this_epoch s > int idx") (simp_all add: Let_def split_def Cons.IH)
qed

lemma init_epoch_clears_flag:
  "init_epoch sample c s = Inr (s1, bs, err) \<Longrightarrow> \<not> restored_from_state s1"
  by (cases s) (auto simp: init_epoch_def Let_def split: sum.splits prod.splits if_splits)

lemma iter_run_after_epochs:
  "iter_run (Suc k) sample c s0 = (pre, Running) \<Longrightarrow>
   \<exists>self. \<not> restored_from_state self \<and>
     (\<forall>n. iter_run (Suc k + n) sample c s0 =
            (pre @ fst (iter_run n sample c self), snd (iter_run n sample c self)))"
proof (induction k arbitrary: s0 pre)
  case 0
  from 0 obtain s1 bs err where ie: "init_epoch sample c s0 = Inr (s1, bs, err)"
    by (cases "init_epoch sample c s0") auto
  obtain out s2 where l: "iter_loop c s1 0 bs = (out, s2)" by (cases "iter_loop c s1 0 bs")
  from 0 have e: "err = None" "repeat c" "pre = out"
    unfolding One_nat_def iter_run_Suc [OF ie l] by (auto split: option.splits if_splits)
  have nr: "\<not> restored_from_state s2"
    using iter_loop_restored [of c s1 0 bs] l init_epoch_clears_flag [OF ie] by simp
  have "iter_run (Suc 0 + n) sample c s0 =
          (pre @ fst (iter_run n sample c s2), snd (iter_run n sample c s2))" for n
    using iter_run_Suc [OF ie l, of n] e by simp
  with nr show ?case by blast
next
  case (Suc k)
  from Suc.prems obtain s1 bs err where ie: "init_epoch sample c s0 = Inr (s1, bs, err)"
    by (cases "init_epoch sample c s0") auto
  obtain out s2 where l: "iter_loop c s1 0 bs = (out, s2)" by (cases "iter_loop c s1 0 bs")
  obtain pre' r where rec: "iter_run (Suc k) sample c s2 = (pre', r)"
    by (cases "iter_run (Suc k) sample c s2")
  from Suc.prems have e: "err = None" "repeat c" "pre = out @ pre'" "r = Running"
    unfolding iter_run_Suc [OF ie l] rec by (auto split: option.splits if_splits)
  from Suc.IH [of s2 pre'] rec e obtain self where nr: "\<not> restored_from_state self"
    and tl: "\<And>n. iter_run (Suc k + n) sample c s2 =
            (pre' @ fst (iter_run n sample c self), snd (iter_run n sample c self))"
    by blast
  have "iter_run (Suc (Suc k) + n) sample c s0 =
          (pre @ fst (iter_run n sample c self), snd (iter_run n sample c self))" for n
    using iter_run_Suc [OF ie l, of "Suc k + n"] e tl [of n] by simp
  with nr show ?case by blast
qed

text \<open>
  Replay from a checkpoint taken at a yield. Let \<open>self\<close> be an iterator at the start of
  an epoch of an uninterrupted run (fresh, or between two epochs: any state not itself
  restored), and let a checkpoint be exported while the generator is suspended at the
  \<open>N\<close>-th batch of that epoch, \<open>N \<ge> 1\<close>. Loaded into a fresh iterator, whatever the
  state \<open>rs\<close> of its own shuffler, the checkpoint is accepted, and for every number \<open>n\<close>
  of passes the resumed run hands out exactly the batches of the uninterrupted run after
  the first \<open>N\<close>, in the same order, and ends the same way. The resumed epoch regenerates
  the same minibatches from the same draws and leaves the shuffler in the same state.
\<close>

theorem checkpoint_replay:
  assumes nr: "\<not> restored_from_state self"
    and N: "0 < N" "N \<le> length (fst (iter_run 1 sample c self))"
    and ck: "ck = snd (fst (iter_run 1 sample c self) ! (N - 1))"
    and res: "resumed = snd (load_state_dict ck (new_iterator rs))"
  shows "fst (load_state_dict ck (new_iterator rs)) = None \<and>
         map fst (fst (iter_run n sample c resumed)) =
           drop N (map fst (fst (iter_run n sample c self))) \<and>
         snd (iter_run n sample c resumed) = snd (iter_run n sample c self) \<and>
         (case init_epoch sample c resumed of
            Inl e \<Rightarrow> Inl e
          | Inr (s, bs, err) \<Rightarrow> Inr (random_shuffler s, bs, err)) =
         (case init_epoch sample c self of
            Inl e \<Rightarrow> Inl e
          | Inr (s, bs, err) \<Rightarrow> Inr (random_shuffler s, bs, err))"
proof -
  obtain s1 bs err where ie: "init_epoch sample c self = Inr (s1, bs, err)"
  proof (cases "init_epoch sample c self")
    case (Inl e)
    with N show ?thesis by simp
  next
    case (Inr t)
    with that show ?thesis by (cases t) auto
  qed
  from init_epoch_fresh [OF nr ie] obtain rs' where
    cb: "create_batches sample c (random_shuffler self) = Inr (bs, err, rs')"
    and s1: "s1 = self\<lparr>iterations := (if \<not> repeat c then 0 else iterations self),
                  iterations_this_epoch := 0,
                  random_state_this_epoch := random_shuffler self,
                  random_shuffler := rs'\<rparr>"
    by blast
  define i0 where "i0 = (if \<not> repeat c then 0 else iterations self)"
  have s1f: "iterations s1 = i0" "iterations_this_epoch s1 = 0"
    "random_state_this_epoch s1 = random_shuffler self" "random_shuffler s1 = rs'"
    "restored_from_state s1 = False"
    using s1 nr by (simp_all add: i0_def)
  define out1 where "out1 = map (\<lambda>(k, mb). (reorder c mb,
            \<lparr>sd_iterations = Some (iterations s1 + int k + 1),
             sd_iterations_this_epoch = Some (iterations_this_epoch s1 + int k + 1),
             sd_random_state_this_epoch = Some (random_state_this_epoch s1)\<rparr>))
        (enumerate 0 bs)"
  define s2 where "s2 = s1\<lparr>iterations := iterations s1 + int (length bs),
        iterations_this_epoch := iterations_this_epoch s1 + int (length bs)\<rparr>"
  have l: "iter_loop c s1 0 bs = (out1, s2)"
    unfolding out1_def s2_def by (rule iter_loop_no_skip) (simp add: s1f)
  have run1: "fst (iter_run 1 sample c self) = out1"
    using iter_run_Suc [OF ie l, of 0] by (simp split: option.splits)
  have len: "length out1 = length bs" by (simp add: out1_def)
  from N run1 len have Nb: "N - 1 < length bs" "N \<le> length bs" by simp_all
  have ckv: "ck = \<lparr>sd_iterations = Some (i0 + int N), sd_iterations_this_epoch = Some (int N),
                   sd_random_state_this_epoch = Some (random_shuffler self)\<rparr>"
    using Nb N(1) unfolding ck run1 out1_def
    by (simp add: nth_enumerate_eq s1f of_nat_diff)
  define R where "R = \<lparr>iterations = i0 + int N, iterations_this_epoch = int N,
      random_state_this_epoch = random_shuffler self, restored_from_state = True,
      random_shuffler = Some rs\<rparr>"
  have ld: "load_state_dict ck (new_iterator rs) = (None, R)"
    by (simp add: ckv load_state_dict_def new_iterator_def R_def)
  have resR: "resumed = R" by (simp add: res ld)
  define j0 where "j0 = (if \<not> repeat c then 0 else i0 + int N)"
  define r1 where "r1 = \<lparr>iterations = j0, iterations_this_epoch = int N,
      random_state_this_epoch = random_shuffler self, restored_from_state = False,
      random_shuffler = rs'\<rparr>"
  have ieR: "init_epoch sample c R = Inr (r1, bs, err)"
    using init_epoch_restored [of R sample c bs err rs'] cb
    by (simp add: R_def r1_def j0_def)
  define outr where "outr = map (\<lambda>(k, mb). (reorder c mb,
            \<lparr>sd_iterations = Some (iterations r1 + int k + 1),
             sd_iterations_this_epoch = Some (iterations_this_epoch r1 + int k + 1),
             sd_random_state_this_epoch = Some (random_state_this_epoch r1)\<rparr>))
        (enumerate 0 (drop N bs))"
  define r2 where "r2 = r1\<lparr>iterations := iterations r1 + int (length (drop N bs)),
        iterations_this_epoch := iterations_this_epoch r1 + int (length (drop N bs))\<rparr>"
  have "iter_loop c r1 0 bs = iter_loop c r1 (0 + N) (drop N bs)"
    by (rule iter_loop_skip) (simp_all add: r1_def Nb)
  also have "\<dots> = (outr, r2)"
    unfolding outr_def r2_def by (simp only: add_0) (rule iter_loop_no_skip, simp add: r1_def)
  finally have lR: "iter_loop c r1 0 bs = (outr, r2)" .
  have "map fst outr = map (reorder c) (drop N bs)"
    unfolding outr_def by (rule map_fst_no_skip)
  moreover have "map fst out1 = map (reorder c) bs"
    unfolding out1_def by (rule map_fst_no_skip)
  ultimately have mo: "map fst outr = drop N (map fst out1)"
    by (simp only: drop_map)
  have r2s2: "r2 = s2\<lparr>iterations := iterations r2\<rparr>"
    using Nb(2) by (simp add: r2_def s2_def r1_def s1 nr)
  have tail: "map fst (fst (iter_run m sample c r2)) = map fst (fst (iter_run m sample c s2))"
    "snd (iter_run m sample c r2) = snd (iter_run m sample c s2)" for m
    using iter_run_iterations [where n = m and sample = sample and c = c and s = s2
        and i = "iterations r2"] r2s2 by simp_all
  have lo: "N \<le> length (map fst out1)" using Nb len by simp
  have main: "map fst (fst (iter_run n sample c R)) = drop N (map fst (fst (iter_run n sample c self))) \<and>
              snd (iter_run n sample c R) = snd (iter_run n sample c self)"
  proof (cases n)
    case 0
    then show ?thesis by simp
  next
    case (Suc m)
    show ?thesis
      unfolding Suc iter_run_Suc [OF ieR lR] iter_run_Suc [OF ie l]
      using mo tail [of m] lo by (simp split: option.splits)
  qed
  have rnd: "(case init_epoch sample c R of
            Inl e \<Rightarrow> Inl e
          | Inr (s, bs, err) \<Rightarrow> Inr (random_shuffler s, bs, err)) =
         (case init_epoch sample c self of
            Inl e \<Rightarrow> Inl e
          | Inr (s, bs, err) \<Rightarrow> Inr (random_shuffler s, bs, err))"
    by (simp add: ieR ie r1_def s1f)
  from ld main rnd show ?thesis by (simp add: resR)
qed

theorem checkpoint_replay_witness:
  "\<not> restored_from_state (new_iterator (1::nat)) \<and> (0::nat) < 2 \<and>
   2 \<le> length (fst (iter_run 1 rotating cfg5 (new_iterator 1))) \<and>
   map fst (fst (iter_run 1 rotating cfg5
     (snd (load_state_dict (snd (fst (iter_run 1 rotating cfg5 (new_iterator 1)) ! (2 - 1)))
            (new_iterator 9))))) = [[3]] \<and>
   drop 2 (map fst (fst (iter_run 1 rotating cfg5 (new_iterator 1)))) = [[3]]"
proof -
  have a: "\<not> restored_from_state (new_iterator (1::nat))" by (simp add: new_iterator_def)
  have b: "2 \<le> length (fst (iter_run 1 rotating cfg5 (new_iterator 1)))"
    unfolding run5 by simp
  have d: "drop 2 (map fst (fst (iter_run 1 rotating cfg5 (new_iterator 1)))) = [[3]]"
    unfolding run5 by simp
  from checkpoint_replay [where n = 1 and rs = 9, OF a _ b refl refl]
  have "map fst (fst (iter_run 1 rotating cfg5
     (snd (load_state_dict (snd (fst (iter_run 1 rotating cfg5 (new_iterator 1)) ! (2 - 1)))
            (new_iterator 9))))) =
     drop 2 (map fst (fst (iter_run 1 rotating cfg5 (new_iterator 1))))"
    by simp
  with a b d show ?thesis by (simp only: simp_thms)
qed

text \<open>
  Claim C1 on the code. The replay holds for every checkpoint taken at a yield, as
  shown above, but not for one taken before the first batch, \<open>N = 0\<close>, when the
  configuration shuffles: \<^verbatim>\<open>_random_state_this_epoch\<close> is still the \<^verbatim>\<open>None\<close> of
  \<^verbatim>\<open>__init__\<close>, \<^verbatim>\<open>state_dict\<close> exports it and \<^verbatim>\<open>init_epoch\<close> installs it in the
  shuffler of the resumed iterator without a check. Five examples in batches of two,
  shuffled: the uninterrupted run hands out three batches, the resumed run raises in
  \<^verbatim>\<open>data()\<close> before the first.
\<close>

theorem checkpoint_before_first_batch:
  "fst (load_state_dict (state_dict (new_iterator (1::nat))) (new_iterator 1)) = None \<and>
   iter_run 1 rotating cfg5 (snd (load_state_dict (state_dict (new_iterator 1)) (new_iterator 1))) =
     ([], Raised TypeError) \<and>
   drop 0 (map fst (fst (iter_run 1 rotating cfg5 (new_iterator 1)))) = [[2, 1], [5, 4], [3]] \<and>
   map fst (fst (iter_run 1 rotating cfg5
       (snd (load_state_dict (state_dict (new_iterator 1)) (new_iterator 1))))) \<noteq>
     drop 0 (map fst (fst (iter_run 1 rotating cfg5 (new_iterator 1))))"
  by code_simp

section \<open>The order within a batch\<close>

lemma iter_loop_no_skip_fst:
  "iterations_this_epoch s \<le> int idx \<Longrightarrow>
   map fst (fst (iter_loop c s idx bs)) = map (reorder c) bs"
proof -
  assume a: "iterations_this_epoch s \<le> int idx"
  have "map fst (fst (iter_loop c s idx bs)) =
        map fst (map (\<lambda>(k, mb). (reorder c mb,
            \<lparr>sd_iterations = Some (iterations s + int k + 1),
             sd_iterations_this_epoch = Some (iterations_this_epoch s + int k + 1),
             sd_random_state_this_epoch = Some (random_state_this_epoch s)\<rparr>))
        (enumerate 0 bs))"
    by (simp only: iter_loop_no_skip [OF a] fst_conv)
  also have "\<dots> = map (reorder c) bs" by (rule map_fst_no_skip)
  finally show ?thesis .
qed

lemma iter_loop_emits:
  "map fst (fst (iter_loop c s 0 bs)) =
     map (reorder c) (drop (nat (iterations_this_epoch s)) bs)"
proof (cases "iterations_this_epoch s \<le> 0")
  case True
  then have "iterations_this_epoch s \<le> int 0" by simp
  from iter_loop_no_skip_fst [OF this, of c bs] True show ?thesis by simp
next
  case False
  define N where "N = min (nat (iterations_this_epoch s)) (length bs)"
  have a: "int 0 + int N \<le> iterations_this_epoch s" "N \<le> length bs"
    using False by (simp_all add: N_def)
  have sk: "iter_loop c s 0 bs = iter_loop c s (0 + N) (drop N bs)"
    using a by (rule iter_loop_skip)
  show ?thesis
  proof (cases "nat (iterations_this_epoch s) < length bs")
    case True
    then have N: "N = nat (iterations_this_epoch s)" by (simp add: N_def)
    have "iterations_this_epoch s \<le> int (0 + N)" using False by (simp add: N)
    from iter_loop_no_skip_fst [OF this, of c "drop N bs"] sk N show ?thesis by simp
  next
    case False
    then have "N = length bs" "drop (nat (iterations_this_epoch s)) bs = []"
      by (simp_all add: N_def)
    with sk show ?thesis by simp
  qed
qed

lemma sort_key_rev_descending: "sorted (rev (map key (rev (sort_key key (rev xs)))))"
  by (simp add: rev_map [symmetric])

lemma init_epoch_sorted_data:
  assumes "sort_flag c" "init_epoch sample c s = Inr (s1, bs, err)"
  shows "bs = batch (sort_key (sort_key_fn c) (dataset c)) (batch_size c) (batch_size_fn c)"
  using assms
  by (auto simp: init_epoch_def create_batches_def data_def Let_def
      split: sum.splits prod.splits if_splits)

text \<open>
  Claim C5. With \<^verbatim>\<open>sort_within_batch\<close> set, the batches a pass of
  \<^verbatim>\<open>Iterator.__iter__\<close> hands out are, one for one and in order, the minibatches that
  \<^verbatim>\<open>init_epoch\<close> left in \<^verbatim>\<open>self.batches\<close>, less those skipped after a restore, each
  reversed when \<^verbatim>\<open>sort\<close> is set and otherwise sorted into descending order of the sort
  key. With \<^verbatim>\<open>sort\<close> set those minibatches are the batches of the sorted dataset, each
  in ascending order. So every batch handed out, in any pass, is in non-increasing
  order of the sort key.
\<close>

theorem emitted_batches_descending:
  assumes swb: "sort_within_batch c"
    and ie: "init_epoch sample c self = Inr (s1, bs, err)"
  shows "map fst (fst (iter_run 1 sample c self)) =
           map (\<lambda>mb. if sort_flag c then rev mb
                     else rev (sort_key (sort_key_fn c) (rev mb)))
             (drop (nat (iterations_this_epoch s1)) bs) \<and>
         (sort_flag c \<longrightarrow>
            bs = batch (sort_key (sort_key_fn c) (dataset c)) (batch_size c) (batch_size_fn c) \<and>
            (\<forall>mb \<in> set bs. sorted (map (sort_key_fn c) mb))) \<and>
         (\<forall>n. \<forall>b \<in> set (map fst (fst (iter_run n sample c self))).
            sorted (rev (map (sort_key_fn c) b)))"
proof (intro conjI impI allI ballI)
  obtain out s2 where l: "iter_loop c s1 0 bs = (out, s2)" by (cases "iter_loop c s1 0 bs")
  have "fst (iter_run 1 sample c self) = out"
    using iter_run_Suc [OF ie l, of 0] by (simp split: option.splits)
  moreover have "map fst out = map (reorder c) (drop (nat (iterations_this_epoch s1)) bs)"
    using iter_loop_emits [of c s1 bs] l by simp
  moreover have "reorder c = (\<lambda>mb. if sort_flag c then rev mb
                     else rev (sort_key (sort_key_fn c) (rev mb)))"
    using swb by (auto simp: reorder_def sort_reverse_def)
  ultimately show "map fst (fst (iter_run 1 sample c self)) =
           map (\<lambda>mb. if sort_flag c then rev mb
                     else rev (sort_key (sort_key_fn c) (rev mb)))
             (drop (nat (iterations_this_epoch s1)) bs)" by simp
next
  assume "sort_flag c"
  from init_epoch_sorted_data [OF this ie]
  show "bs = batch (sort_key (sort_key_fn c) (dataset c)) (batch_size c) (batch_size_fn c)" .
next
  fix mb assume s: "sort_flag c" and mb: "mb \<in> set bs"
  from init_epoch_sorted_data [OF s ie] mb
  show "sorted (map (sort_key_fn c) mb)"
    using batch_sorted_member [of "sort_key_fn c" "sort_key (sort_key_fn c) (dataset c)"] by simp
next
  fix n b assume "b \<in> set (map fst (fst (iter_run n sample c self)))"
  then obtain ck where m: "(b, ck) \<in> set (fst (iter_run n sample c self))" by auto
  from iter_run_member [OF m] obtain s0 s1' bs' err' mb where
    ie': "init_epoch sample c s0 = Inr (s1', bs', err')" and mb: "mb \<in> set bs'"
    and b: "b = reorder c mb" by blast
  show "sorted (rev (map (sort_key_fn c) b))"
  proof (cases "sort_flag c")
    case True
    from init_epoch_sorted_data [OF True ie'] mb
    have "sorted (map (sort_key_fn c) mb)"
      using batch_sorted_member [of "sort_key_fn c" "sort_key (sort_key_fn c) (dataset c)"]
      by simp
    with b True swb show ?thesis by (simp add: reorder_def rev_map)
  next
    case False
    with b swb show ?thesis by (simp add: reorder_def sort_reverse_def rev_map [symmetric])
  qed
qed

lemma init5:
  "init_epoch rotating cfg5 (new_iterator 1) =
     Inr (\<lparr>iterations = 0, iterations_this_epoch = 0, random_state_this_epoch = Some 1,
            restored_from_state = False, random_shuffler = Some 2\<rparr>,
          [[1, 2], [5, 4], [3]], None)"
  "init_epoch rotating (cfg5\<lparr>sort_flag := True\<rparr>) (new_iterator 1) =
     Inr (\<lparr>iterations = 0, iterations_this_epoch = 0, random_state_this_epoch = Some 1,
            restored_from_state = False, random_shuffler = Some 1\<rparr>,
          [[1, 2], [3, 4], [5]], None)"
  by code_simp+

theorem emitted_batches_descending_witness:
  "sort_within_batch cfg5 \<and> sort_within_batch (cfg5\<lparr>sort_flag := True\<rparr>) \<and>
   init_epoch rotating cfg5 (new_iterator 1) =
     Inr (\<lparr>iterations = 0, iterations_this_epoch = 0, random_state_this_epoch = Some 1,
            restored_from_state = False, random_shuffler = Some 2\<rparr>,
          [[1, 2], [5, 4], [3]], None) \<and>
   map fst (fst (iter_run 1 rotating cfg5 (new_iterator 1))) = [[2, 1], [5, 4], [3]] \<and>
   init_epoch rotating (cfg5\<lparr>sort_flag := True\<rparr>) (new_iterator 1) =
     Inr (\<lparr>iterations = 0, iterations_this_epoch = 0, random_state_this_epoch = Some 1,
            restored_from_state = False, random_shuffler = Some 1\<rparr>,
          [[1, 2], [3, 4], [5]], None) \<and>
   map fst (fst (iter_run 1 rotating (cfg5\<lparr>sort_flag := True\<rparr>) (new_iterator 1))) =
     [[2, 1], [4, 3], [5]]"
proof -
  have a: "sort_within_batch cfg5" "sort_within_batch (cfg5\<lparr>sort_flag := True\<rparr>)"
    "\<not> sort_flag cfg5" "sort_flag (cfg5\<lparr>sort_flag := True\<rparr>)" "sort_key_fn cfg5 = id"
    "sort_key_fn (cfg5\<lparr>sort_flag := True\<rparr>) = id"
    by (simp_all add: cfg5_def)
  from emitted_batches_descending [OF a(1) init5(1)]
  have 1: "map fst (fst (iter_run 1 rotating cfg5 (new_iterator 1))) = [[2, 1], [5, 4], [3]]"
    by (simp add: a)
  from emitted_batches_descending [OF a(2) init5(2)]
  have 2: "map fst (fst (iter_run 1 rotating (cfg5\<lparr>sort_flag := True\<rparr>) (new_iterator 1))) =
     [[2, 1], [4, 3], [5]]"
    by (simp add: a)
  from a init5 1 2 show ?thesis by (simp only: simp_thms)
qed

section \<open>The BPTT windows\<close>

lemma py_slice_nat:
  "py_slice xs (int i) (int j) = take (j - i) (drop i xs)"
proof (cases "i \<le> length xs")
  case True
  then show ?thesis
    by (cases "j \<le> length xs") (auto simp: py_slice_def Let_def min_def nat_diff_distrib')
next
  case False
  then show ?thesis by (auto simp: py_slice_def Let_def min_def)
qed

lemma bptt_window_closed:
  "bptt_window B False L xs i = (take L (drop i (butlast xs)), take L (drop i (tl xs)))"
proof (cases "i < length xs")
  case True
  define s where "s = min L (length xs - i - 1)"
  have d: "int (length xs - i - 1) = int (length xs) - int i - 1"
    using True by linarith
  have sl: "min (int L) (int (length xs) - int i - 1) = int s"
    unfolding s_def d [symmetric] by (simp add: min_def)
  have a: "take s (drop i xs) = take L (drop i (butlast xs))"
    using True by (simp add: s_def butlast_conv_take drop_take min_def)
  have b: "take s (drop (Suc i) xs) = take L (drop i (tl xs))"
    using True by (simp add: s_def drop_Suc min_def)
  have "py_slice xs (int i) (int (i + s)) = take s (drop i xs)"
    by (simp only: py_slice_nat) simp
  then have t1: "py_slice xs (int i) (int i + int s) = take L (drop i (butlast xs))"
    using a by simp
  have "py_slice xs (int (Suc i)) (int (Suc i + s)) = take s (drop (Suc i) xs)"
    by (simp only: py_slice_nat) simp
  moreover have "int (Suc i) = int i + 1" "int (Suc i + s) = int i + 1 + int s" by simp_all
  ultimately have t2: "py_slice xs (int i + 1) (int i + 1 + int s) = take L (drop i (tl xs))"
    using b by (simp only:)
  show ?thesis
    unfolding bptt_window_def Let_def sl t1 t2 by simp
next
  case False
  then have "drop i (butlast xs) = []" "drop i (tl xs) = []" by simp_all
  moreover have "py_slice xs (int i) (int i + min (int L) (int (length xs) - int i - 1)) = []"
    using False by (auto simp: py_slice_def Let_def min_def)
  moreover have "py_slice xs (int i + 1) (int i + 1 + min (int L) (int (length xs) - int i - 1)) = []"
    using False by (auto simp: py_slice_def Let_def min_def)
  ultimately show ?thesis by (simp add: bptt_window_def Let_def)
qed



lemma consume_data_rows:
  "consume_data B False L xs t = Inr ws \<Longrightarrow>
   ws = map (\<lambda>k. (take L (drop (k * L) (butlast xs)), take L (drop (k * L) (tl xs)))) [0..<nat t]"
  by (auto simp: consume_data_def bptt_window_closed split: if_splits)


lemma t_contiguous_nth:
  "b < B \<Longrightarrow> j < length w \<Longrightarrow> t_contiguous B w ! b ! j = w ! j ! b"
  "b < B \<Longrightarrow> length (t_contiguous B w ! b) = length w"
  by (simp_all add: t_contiguous_def)














end
